theory Spec2Isabelle
  imports Complex_Main
begin

section \<open>Images\<close>

text \<open>
  A tensor of shape (H, W, C) is a list of rows, a row a list of pixels, a pixel a list
  of channels. The visualizer's output holds normalized floating-point channels; they
  are modelled by real numbers (exact arithmetic, no rounding and no NaN). The frame
  that is published holds \<open>torch.uint8\<close> channels, modelled by natural numbers with
  the reduction modulo 256 written out.
\<close>

type_synonym rimage = "real list list list"
type_synonym frame = "nat list list list"

text \<open>\<open>Tensor.clip(min, max)\<close>: elementwise \<open>min(max(x, lo), hi)\<close>.\<close>

definition clip :: "real \<Rightarrow> real \<Rightarrow> real \<Rightarrow> real" where
  "clip lo hi x = min (max x lo) hi"

text \<open>
  \<open>Tensor.type(torch.uint8)\<close> on a floating-point value: the fraction is dropped
  (rounding toward zero) and the integer is stored in eight bits.
\<close>

definition to_uint8 :: "real \<Rightarrow> nat" where
  "to_uint8 x = nat ((if 0 \<le> x then \<lfloor>x\<rfloor> else \<lceil>x\<rceil>) mod 256)"

text \<open>
  Line 164 of \<open>render\<close>, on one pixel:
  \<open>torch.cat([image[..., :3] * exposure + offset, image[..., -1:]], dim=-1)\<close>.
  The slice \<open>:3\<close> keeps at most the first three channels, the slice \<open>-1:\<close> the last
  channel (none of an empty pixel).
\<close>

definition correct_pixel :: "real \<Rightarrow> real \<Rightarrow> real list \<Rightarrow> real list" where
  "correct_pixel exposure offset px =
     map (\<lambda>c. c * exposure + offset) (take 3 px) @ drop (length px - 1) px"

text \<open>Lines 163-164: the correction runs only when a parameter differs from its default.\<close>

definition correction :: "real \<Rightarrow> real \<Rightarrow> rimage \<Rightarrow> rimage" where
  "correction exposure offset img =
     (if exposure \<noteq> 1 \<or> offset \<noteq> 0
      then map (map (correct_pixel exposure offset)) img
      else img)"

text \<open>\<open>Tensor.flip(0)\<close>: the order of the rows is reversed.\<close>

definition flip0 :: "'a list \<Rightarrow> 'a list" where
  "flip0 rows = rev rows"

text \<open>Line 165: \<open>(image.clip(0, 1) * 255).type(torch.uint8).flip(0)\<close>.\<close>

definition quantize :: "real \<Rightarrow> nat" where
  "quantize c = to_uint8 (clip 0 1 c * 255)"

definition transform :: "rimage \<Rightarrow> frame" where
  "transform img = flip0 (map (map (map quantize)) img)"

text \<open>
  \<open>render\<close> after the forward pass. The network and the visualizer
  (\<open>self.model\<close>, \<open>visualizer.generate_type\<close>) are outside this file: their
  composition is the parameter \<open>generate\<close>, from the batch to the RGBA image.
\<close>

definition render :: "('b \<Rightarrow> rimage) \<Rightarrow> real \<Rightarrow> real \<Rightarrow> 'b \<Rightarrow> frame" where
  "render generate exposure offset batch =
     transform (correction exposure offset (generate batch))"

text \<open>
  The correction as the specification words it, applied whatever the parameters are:
  \<open>outRGB = inRGB * exposure + offset\<close> on the first three channels of an RGBA pixel,
  the alpha channel unchanged.
\<close>

definition spec_correct_pixel :: "real \<Rightarrow> real \<Rightarrow> real list \<Rightarrow> real list" where
  "spec_correct_pixel exposure offset px =
     map (\<lambda>k. if k < 3 then px ! k * exposure + offset else px ! k) [0..<length px]"

definition spec_render :: "('b \<Rightarrow> rimage) \<Rightarrow> real \<Rightarrow> real \<Rightarrow> 'b \<Rightarrow> frame" where
  "spec_render generate exposure offset batch =
     transform (map (map (spec_correct_pixel exposure offset)) (generate batch))"

definition rgba :: "rimage \<Rightarrow> bool" where
  "rgba img = (\<forall>row \<in> set img. \<forall>px \<in> set row. length px = 4)"

section \<open>Throughput reports\<close>

text \<open>
  The tail of an iteration of \<open>render_loop\<close> (lines 120-127) and of \<open>send_loop\<close>
  (lines 140-147). \<open>curr_time\<close> is the reading of \<open>time.perf_counter()\<close>. The result
  is the new pair of loop variables and the line that is logged, if one is.
\<close>

record fps_state =
  frame_cnt :: nat
  prev_time :: real

datatype report = Render_FPS real | Send_FPS real

definition render_loop_fps :: "fps_state \<Rightarrow> real \<Rightarrow> fps_state \<times> report option" where
  "render_loop_fps st curr_time =
     (let pass_time = curr_time - prev_time st;
          cnt = frame_cnt st + 1
      in if pass_time > 2
         then (\<lparr>frame_cnt = 0, prev_time = curr_time\<rparr>, Some (Render_FPS (real cnt / pass_time)))
         else (\<lparr>frame_cnt = cnt, prev_time = prev_time st\<rparr>, None))"

definition send_loop_fps :: "fps_state \<Rightarrow> real \<Rightarrow> fps_state \<times> report option" where
  "send_loop_fps st curr_time =
     (let pass_time = curr_time - prev_time st;
          cnt = frame_cnt st + 1
      in if pass_time > 2
         then (\<lparr>frame_cnt = 0, prev_time = curr_time\<rparr>, Some (Send_FPS (real cnt / pass_time)))
         else (\<lparr>frame_cnt = cnt, prev_time = prev_time st\<rparr>, None))"

section \<open>The server\<close>

text \<open>
  The camera is built from \<open>camera_cfg\<close> (its \<open>H\<close> and \<open>W\<close>); the class \<open>Camera\<close> is
  outside this file, and \<open>to_batch\<close> is a copy of the camera parameters. \<open>self.H\<close>
  and \<open>self.W\<close> of the server are the camera's.
\<close>

record camera =
  cam_H :: nat
  cam_W :: nat

text \<open>
  \<open>torch.randint(low, high, (H, W, 4))\<close>: every channel is drawn from
  \<open>low, ..., high - 1\<close>. The source of randomness is the parameter \<open>rng\<close>.
\<close>

definition randint :: "nat \<Rightarrow> nat \<Rightarrow> nat \<Rightarrow> nat \<Rightarrow> (nat \<Rightarrow> nat \<Rightarrow> nat \<Rightarrow> nat) \<Rightarrow> frame" where
  "randint low high h w rng =
     map (\<lambda>i. map (\<lambda>j. map (\<lambda>k. low + rng i j k mod (high - low)) [0..<4]) [0..<w]) [0..<h]"

text \<open>
  The threads that take the locks: the main thread, which runs \<open>render_loop\<close>, and one
  \<open>send_loop\<close> per connection.
\<close>

datatype thread = Render_thread | Send_conn nat

text \<open>
  The work queued on \<open>self.stream\<close>, in order: \<open>XWait k\<close> is the barrier left by
  \<open>wait_stream\<close> when \<open>k\<close> frames had been issued on the compute stream (the stream
  goes on once \<open>k\<close> frames are finished); \<open>XCopy n\<close> is the device-to-host copy of
  frame \<open>n\<close>.
\<close>

datatype xop = XWait nat | XCopy nat

text \<open>The places of \<open>render_loop\<close> and \<open>send_loop\<close>; each names the statement run next.\<close>

datatype render_pc =
    RInit         \<comment> \<open>lines 108-109\<close>
  | RCamLock      \<comment> \<open>line 112, entering \<open>with self.camera_lock\<close>\<close>
  | RToBatch      \<comment> \<open>line 113\<close>
  | RCamUnlock    \<comment> \<open>leaving \<open>with self.camera_lock\<close>\<close>
  | RRender       \<comment> \<open>line 114\<close>
  | RWaitStream   \<comment> \<open>line 115\<close>
  | RImgLock      \<comment> \<open>line 117, entering \<open>with self.image_lock\<close>\<close>
  | RPublish      \<comment> \<open>line 118\<close>
  | RImgUnlock    \<comment> \<open>leaving \<open>with self.image_lock\<close>\<close>
  | RFps          \<comment> \<open>lines 120-127\<close>

datatype send_pc =
    SInit         \<comment> \<open>lines 130-131\<close>
  | SImgLock      \<comment> \<open>line 134, entering \<open>with self.image_lock\<close>\<close>
  | SSynchronize  \<comment> \<open>line 135\<close>
  | SNumpy        \<comment> \<open>line 136\<close>
  | SImgUnlock    \<comment> \<open>leaving \<open>with self.image_lock\<close>\<close>
  | SEncode       \<comment> \<open>line 137\<close>
  | SSend         \<comment> \<open>line 138\<close>
  | SFps          \<comment> \<open>lines 140-147\<close>

text \<open>
  The state: the attributes of the server, the two device streams, the local variables
  and the place of each thread, the clock and the log. Two fields are not in the code
  and only count: \<open>published\<close> is the number of frames stored in \<open>self.image\<close> so far
  (the generation of the frame in the slot), and \<open>observed c\<close> lists the generations
  that connection \<open>c\<close> has read. \<open>image_ref\<close> is the tensor \<open>self.image\<close>, given by
  the bytes it holds once its copy has finished; its shape and type are fixed when it is
  allocated.
\<close>

record server =
  camera :: camera
  exposure :: real
  offset :: real
  jpeg_quality :: nat
  camera_lock :: "thread option"
  image_lock :: "thread option"
  image_ref :: frame
  published :: nat
  issued :: nat
  finished :: nat
  stream :: "xop list"
  render_at :: render_pc
  batch :: camera
  rendered :: frame
  render_fps :: fps_state
  send_at :: "nat \<Rightarrow> send_pc"
  local_image :: "nat \<Rightarrow> frame"
  encoded :: "nat \<Rightarrow> (frame \<times> nat) option"
  send_fps :: "nat \<Rightarrow> fps_state"
  observed :: "nat \<Rightarrow> nat list"
  clock :: real
  logged :: "report list"

text \<open>
  \<open>__init__\<close>, lines 59-68: the camera, the two free locks, the random placeholder
  image, the stream, the default exposure and offset. The loops have not started; their
  local variables, not yet assigned, hold a filler.
\<close>

definition init :: "nat \<Rightarrow> nat \<Rightarrow> nat \<Rightarrow> (nat \<Rightarrow> nat \<Rightarrow> nat \<Rightarrow> nat) \<Rightarrow> server" where
  "init h w quality rng =
     \<lparr>camera = \<lparr>cam_H = h, cam_W = w\<rparr>,
      exposure = 1, offset = 0, jpeg_quality = quality,
      camera_lock = None, image_lock = None,
      image_ref = randint 0 255 h w rng,
      published = 0, issued = 0, finished = 0, stream = [],
      render_at = RInit, batch = \<lparr>cam_H = h, cam_W = w\<rparr>, rendered = [],
      render_fps = \<lparr>frame_cnt = 0, prev_time = 0\<rparr>,
      send_at = (\<lambda>c. SInit), local_image = (\<lambda>c. []), encoded = (\<lambda>c. None),
      send_fps = (\<lambda>c. \<lparr>frame_cnt = 0, prev_time = 0\<rparr>),
      observed = (\<lambda>c. []), clock = 0, logged = []\<rparr>"

text \<open>
  One statement of \<open>render_loop\<close>. \<open>None\<close> means that the thread cannot go on in this
  state: it waits for a lock that is taken. The forward pass only issues the work of
  frame \<open>issued + 1\<close> on the compute stream, and line 118 only queues the copy on
  \<open>self.stream\<close> and stores the new tensor.
\<close>

definition render_loop_step :: "(camera \<Rightarrow> rimage) \<Rightarrow> server \<Rightarrow> server option" where
  "render_loop_step generate s =
     (case render_at s of
        RInit \<Rightarrow>
          Some (s\<lparr>render_fps := \<lparr>frame_cnt = 0, prev_time = clock s\<rparr>, render_at := RCamLock\<rparr>)
      | RCamLock \<Rightarrow>
          (case camera_lock s of
             None \<Rightarrow> Some (s\<lparr>camera_lock := Some Render_thread, render_at := RToBatch\<rparr>)
           | Some t \<Rightarrow> None)
      | RToBatch \<Rightarrow> Some (s\<lparr>batch := camera s, render_at := RCamUnlock\<rparr>)
      | RCamUnlock \<Rightarrow> Some (s\<lparr>camera_lock := None, render_at := RRender\<rparr>)
      | RRender \<Rightarrow>
          Some (s\<lparr>rendered := render generate (exposure s) (offset s) (batch s),
                 issued := issued s + 1, render_at := RWaitStream\<rparr>)
      | RWaitStream \<Rightarrow>
          Some (s\<lparr>stream := stream s @ [XWait (issued s)], render_at := RImgLock\<rparr>)
      | RImgLock \<Rightarrow>
          (case image_lock s of
             None \<Rightarrow> Some (s\<lparr>image_lock := Some Render_thread, render_at := RPublish\<rparr>)
           | Some t \<Rightarrow> None)
      | RPublish \<Rightarrow>
          Some (s\<lparr>image_ref := rendered s, published := published s + 1,
                 stream := stream s @ [XCopy (issued s)], render_at := RImgUnlock\<rparr>)
      | RImgUnlock \<Rightarrow> Some (s\<lparr>image_lock := None, render_at := RFps\<rparr>)
      | RFps \<Rightarrow>
          (case render_loop_fps (render_fps s) (clock s) of
             (st, rep) \<Rightarrow>
               Some (s\<lparr>render_fps := st,
                      logged := logged s @ (case rep of None \<Rightarrow> [] | Some r \<Rightarrow> [r]),
                      render_at := RCamLock\<rparr>)))"

text \<open>
  One statement of the \<open>send_loop\<close> of connection \<open>c\<close>. \<open>stream.synchronize()\<close> returns
  when nothing is left on \<open>self.stream\<close>; until then the thread cannot go on. The codec
  and the socket are outside this file: the payload is the pair of the pixels and the
  quality handed to the codec, and \<open>websocket.send\<close> changes nothing in the server.
\<close>

definition send_loop_step :: "nat \<Rightarrow> server \<Rightarrow> server option" where
  "send_loop_step c s =
     (case send_at s c of
        SInit \<Rightarrow>
          Some (s\<lparr>send_fps := (send_fps s)(c := \<lparr>frame_cnt = 0, prev_time = clock s\<rparr>),
                 send_at := (send_at s)(c := SImgLock)\<rparr>)
      | SImgLock \<Rightarrow>
          (case image_lock s of
             None \<Rightarrow> Some (s\<lparr>image_lock := Some (Send_conn c),
                             send_at := (send_at s)(c := SSynchronize)\<rparr>)
           | Some t \<Rightarrow> None)
      | SSynchronize \<Rightarrow>
          (if stream s = [] then Some (s\<lparr>send_at := (send_at s)(c := SNumpy)\<rparr>) else None)
      | SNumpy \<Rightarrow>
          Some (s\<lparr>local_image := (local_image s)(c := image_ref s),
                 observed := (observed s)(c := observed s c @ [published s]),
                 send_at := (send_at s)(c := SImgUnlock)\<rparr>)
      | SImgUnlock \<Rightarrow> Some (s\<lparr>image_lock := None, send_at := (send_at s)(c := SEncode)\<rparr>)
      | SEncode \<Rightarrow>
          Some (s\<lparr>encoded := (encoded s)(c := Some (local_image s c, jpeg_quality s)),
                 send_at := (send_at s)(c := SSend)\<rparr>)
      | SSend \<Rightarrow> Some (s\<lparr>send_at := (send_at s)(c := SFps)\<rparr>)
      | SFps \<Rightarrow>
          (case send_loop_fps (send_fps s c) (clock s) of
             (st, rep) \<Rightarrow>
               Some (s\<lparr>send_fps := (send_fps s)(c := st),
                      logged := logged s @ (case rep of None \<Rightarrow> [] | Some r \<Rightarrow> [r]),
                      send_at := (send_at s)(c := SImgLock)\<rparr>)))"

text \<open>
  One iteration of \<open>recv_loop\<close> (lines 150-151): \<open>time.sleep(1)\<close>. Nothing is read from
  the connection and no attribute is touched; the time that passes is a step of the clock.
\<close>

definition recv_loop_step :: "nat \<Rightarrow> server \<Rightarrow> server option" where
  "recv_loop_step c s = Some s"

text \<open>
  The device: the compute stream finishes the frames in the order they were issued; the
  transfer stream runs its queue in order, a barrier only once the frames it stands for
  are finished.
\<close>

definition gpu_compute :: "server \<Rightarrow> server option" where
  "gpu_compute s = (if finished s < issued s then Some (s\<lparr>finished := finished s + 1\<rparr>) else None)"

definition gpu_transfer :: "server \<Rightarrow> server option" where
  "gpu_transfer s =
     (case stream s of
        [] \<Rightarrow> None
      | XWait k # q \<Rightarrow> (if k \<le> finished s then Some (s\<lparr>stream := q\<rparr>) else None)
      | XCopy n # q \<Rightarrow> Some (s\<lparr>stream := q\<rparr>))"

definition tick :: "real \<Rightarrow> server \<Rightarrow> server option" where
  "tick d s = (if 0 \<le> d then Some (s\<lparr>clock := clock s + d\<rparr>) else None)"

text \<open>
  An execution is a schedule: which thread, connection or device stream moves next. The
  threads started by \<open>run\<close> (lines 101-105) and the device interleave freely, and so
  do the connections, which covers an event loop that runs them one after the other.
\<close>

datatype actor =
    Thread thread
  | Recv_conn nat
  | Gpu_compute
  | Gpu_transfer
  | Clock real

fun step :: "(camera \<Rightarrow> rimage) \<Rightarrow> actor \<Rightarrow> server \<Rightarrow> server option" where
  "step generate (Thread Render_thread) s = render_loop_step generate s"
| "step generate (Thread (Send_conn c)) s = send_loop_step c s"
| "step generate (Recv_conn c) s = recv_loop_step c s"
| "step generate Gpu_compute s = gpu_compute s"
| "step generate Gpu_transfer s = gpu_transfer s"
| "step generate (Clock d) s = tick d s"

fun run :: "(camera \<Rightarrow> rimage) \<Rightarrow> actor list \<Rightarrow> server \<Rightarrow> server option" where
  "run generate [] s = Some s"
| "run generate (a # sched) s =
     (case step generate a s of None \<Rightarrow> None | Some s' \<Rightarrow> run generate sched s')"

section \<open>Invariants of the executions\<close>

text \<open>
  What every connection has read so far is in order and not ahead of the slot.
\<close>

definition generations :: "server \<Rightarrow> bool" where
  "generations s =
     (\<forall>c. sorted (observed s c) \<and> (\<forall>g \<in> set (observed s c). g \<le> published s))"

text \<open>
  The queue of the transfer stream, read from its head with \<open>m\<close> frames known to be
  finished: a barrier for \<open>k\<close> frames raises what is known to \<open>k\<close>, and a copy of
  frame \<open>n\<close> is in order when \<open>n\<close> frames are known to be finished by then.
  \<open>barrier\<close> is what is known at the end of the queue.
\<close>

fun ordered :: "nat \<Rightarrow> xop list \<Rightarrow> bool" where
  "ordered m [] = True"
| "ordered m (XWait k # q) = ordered (max m k) q"
| "ordered m (XCopy n # q) = (n \<le> m \<and> ordered m q)"

fun barrier :: "nat \<Rightarrow> xop list \<Rightarrow> nat" where
  "barrier m [] = m"
| "barrier m (XWait k # q) = barrier (max m k) q"
| "barrier m (XCopy n # q) = barrier m q"

definition streams_ordered :: "server \<Rightarrow> bool" where
  "streams_ordered s =
     (finished s \<le> issued s \<and> ordered (finished s) (stream s)
      \<and> (render_at s \<in> {RImgLock, RPublish} \<longrightarrow> issued s \<le> barrier (finished s) (stream s)))"

text \<open>The shape of an RGBA image, and of a frame of bytes.\<close>

definition rgba_hw :: "nat \<Rightarrow> nat \<Rightarrow> rimage \<Rightarrow> bool" where
  "rgba_hw h w img =
     (length img = h \<and> (\<forall>row \<in> set img. length row = w \<and> (\<forall>px \<in> set row. length px = 4)))"

definition uint8_hw4 :: "nat \<Rightarrow> nat \<Rightarrow> frame \<Rightarrow> bool" where
  "uint8_hw4 h w f =
     (length f = h \<and>
      (\<forall>row \<in> set f. length row = w \<and>
         (\<forall>px \<in> set row. length px = 4 \<and> (\<forall>v \<in> set px. v \<le> 255))))"

definition slot_shape :: "nat \<Rightarrow> nat \<Rightarrow> server \<Rightarrow> bool" where
  "slot_shape h w s =
     (camera s = \<lparr>cam_H = h, cam_W = w\<rparr>
      \<and> uint8_hw4 h w (image_ref s)
      \<and> (render_at s \<in> {RInit, RCamLock, RToBatch, RCamUnlock, RRender} \<or> uint8_hw4 h w (rendered s))
      \<and> (render_at s \<in> {RCamUnlock, RRender} \<longrightarrow> batch s = camera s))"

text \<open>The places inside the \<open>with\<close> blocks, where the thread holds the lock.\<close>

fun send_holds_image_lock :: "send_pc \<Rightarrow> bool" where
  "send_holds_image_lock SSynchronize = True"
| "send_holds_image_lock SNumpy = True"
| "send_holds_image_lock SImgUnlock = True"
| "send_holds_image_lock p = False"

fun render_holds_image_lock :: "render_pc \<Rightarrow> bool" where
  "render_holds_image_lock RPublish = True"
| "render_holds_image_lock RImgUnlock = True"
| "render_holds_image_lock p = False"

fun render_holds_camera_lock :: "render_pc \<Rightarrow> bool" where
  "render_holds_camera_lock RToBatch = True"
| "render_holds_camera_lock RCamUnlock = True"
| "render_holds_camera_lock p = False"

definition lock_scopes :: "server \<Rightarrow> bool" where
  "lock_scopes s =
     ((\<forall>c. (image_lock s = Some (Send_conn c)) = send_holds_image_lock (send_at s c))
      \<and> (image_lock s = Some Render_thread) = render_holds_image_lock (render_at s)
      \<and> (camera_lock s = Some Render_thread) = render_holds_camera_lock (render_at s)
      \<and> (\<forall>c. camera_lock s \<noteq> Some (Send_conn c)))"

section \<open>Concrete executions\<close>

text \<open>
  A network that paints every pixel (0.4, 0.4, 0.4, 1), a source of random numbers, and
  four schedules. In \<open>skip_schedule\<close> connection 0 reads the placeholder, the render
  loop publishes two frames, the device finishes them, and the connection reads again.
  In \<open>blocked_schedule\<close> the render loop publishes a frame, connection 0 enters its
  \<open>with\<close> block while the copy is still queued, and the render loop comes round to line
  117. In \<open>copy_schedule\<close> the render loop publishes a frame and the device finishes
  the frame and passes the barrier. In \<open>publish_schedule\<close> the render loop publishes a
  frame and renders the next one while the device has done nothing.
\<close>

definition flat :: "camera \<Rightarrow> rimage" where
  "flat cam = replicate (cam_H cam) (replicate (cam_W cam) [0.4, 0.4, 0.4, 1])"

definition rng0 :: "nat \<Rightarrow> nat \<Rightarrow> nat \<Rightarrow> nat" where
  "rng0 i j k = 7 * i + 3 * j + k"

definition skip_schedule :: "actor list" where
  "skip_schedule =
     (let R = Thread Render_thread; S = Thread (Send_conn 0)
      in [S, S, S, S, S,
          R, R, R, R, R, R, R, R, R,
          R, R, R, R, R, R, R, R, R, R,
          Gpu_compute, Gpu_compute, Gpu_transfer, Gpu_transfer, Gpu_transfer, Gpu_transfer,
          S, S, S, S, S, S])"

definition blocked_schedule :: "actor list" where
  "blocked_schedule =
     (let R = Thread Render_thread; S = Thread (Send_conn 0)
      in [R, R, R, R, R, R, R, R, R,
          S, S,
          R, R, R, R, R, R])"

definition copy_schedule :: "actor list" where
  "copy_schedule =
     (let R = Thread Render_thread
      in [R, R, R, R, R, R, R, R, R, Gpu_compute, Gpu_transfer])"

definition publish_schedule :: "actor list" where
  "publish_schedule =
     (let R = Thread Render_thread in [R, R, R, R, R, R, R, R, R, R, R, R, R, R])"

lemmas machine_defs =
  init_def render_loop_step_def send_loop_step_def recv_loop_step_def
  gpu_compute_def gpu_transfer_def tick_def render_loop_fps_def send_loop_fps_def
  randint_def flat_def rng0_def render_def transform_def correction_def correct_pixel_def
  flip0_def quantize_def clip_def to_uint8_def

section \<open>The post-correction of \<open>render\<close>\<close>

lemma length_correct_pixel: "length px = 4 \<Longrightarrow> length (correct_pixel e off px) = 4"
  by (simp add: correct_pixel_def)

lemma correct_pixel_rgb:
  "length px = 4 \<Longrightarrow> k < 3 \<Longrightarrow> correct_pixel e off px ! k = px ! k * e + off"
  by (simp add: correct_pixel_def nth_append)

lemma correct_pixel_alpha:
  "length px = 4 \<Longrightarrow> correct_pixel e off px ! 3 = px ! 3"
  by (simp add: correct_pixel_def nth_append)

lemma correct_pixel_spec:
  assumes "length px = 4"
  shows "correct_pixel e off px = spec_correct_pixel e off px"
proof (rule nth_equalityI)
  show "length (correct_pixel e off px) = length (spec_correct_pixel e off px)"
    using assms by (simp add: correct_pixel_def spec_correct_pixel_def)
next
  fix k assume "k < length (correct_pixel e off px)"
  then have k: "k < 4" using assms by (simp add: length_correct_pixel)
  show "correct_pixel e off px ! k = spec_correct_pixel e off px ! k"
  proof (cases "k < 3")
    case True
    then show ?thesis using assms by (simp add: correct_pixel_rgb spec_correct_pixel_def)
  next
    case False
    with k have "k = 3" by simp
    then show ?thesis using assms by (simp add: correct_pixel_alpha spec_correct_pixel_def)
  qed
qed

lemma spec_correct_pixel_default: "spec_correct_pixel 1 0 px = px"
  by (rule nth_equalityI) (simp_all add: spec_correct_pixel_def)

lemma correction_pixel:
  "i < length img \<Longrightarrow> j < length (img ! i) \<Longrightarrow>
   correction e off img ! i ! j = (if e \<noteq> 1 \<or> off \<noteq> 0 then correct_pixel e off (img ! i ! j) else img ! i ! j)"
  by (simp add: correction_def)

lemma length_correction: "length (correction e off img) = length img"
  by (simp add: correction_def)

lemma length_correction_row: "i < length img \<Longrightarrow> length (correction e off img ! i) = length (img ! i)"
  by (simp add: correction_def)

lemma transform_pixel:
  "i < length img \<Longrightarrow> j < length (img ! i) \<Longrightarrow>
   transform img ! (length img - Suc i) ! j = map quantize (img ! i ! j)"
  by (simp add: transform_def flip0_def rev_nth)

lemma render_pixel:
  assumes "i < length (generate b)" "j < length (generate b ! i)"
  shows "render generate e off b ! (length (generate b) - Suc i) ! j =
         map quantize (if e \<noteq> 1 \<or> off \<noteq> 0 then correct_pixel e off (generate b ! i ! j)
                       else generate b ! i ! j)"
proof -
  let ?img = "correction e off (generate b)"
  have "transform ?img ! (length ?img - Suc i) ! j = map quantize (?img ! i ! j)"
    using assms by (intro transform_pixel) (simp_all add: length_correction length_correction_row)
  then show ?thesis
    using assms by (simp add: render_def length_correction correction_pixel)
qed

lemma quantize_unit: "0 \<le> a \<Longrightarrow> a \<le> 1 \<Longrightarrow> quantize a = to_uint8 (a * 255)"
  by (simp add: quantize_def clip_def)

text \<open>
  The byte does not hang on the last digits of the arithmetic: every value within 0.001
  of 0.7 is quantized to 178.
\<close>

lemma quantize_near:
  assumes "\<bar>v - 0.7\<bar> \<le> 1 / 1000"
  shows "quantize v = 178"
proof -
  from assms have lo: "699 / 1000 \<le> v" and hi: "v \<le> 701 / 1000" by linarith+
  then have c: "clip 0 1 v = v" by (simp add: clip_def)
  have "\<lfloor>v * 255\<rfloor> = 178"
    using lo hi by (intro floor_unique) simp_all
  then show ?thesis using lo by (simp add: quantize_def c to_uint8_def)
qed

text \<open>
  On RGBA images the two slices of line 164 are the linear correction of the
  specification, for every exposure and offset, and the skipped branch is that
  correction at its defaults.
\<close>

lemma render_refines_spec:
  assumes "rgba (generate b)"
  shows "render generate e off b = spec_render generate e off b"
proof -
  have px: "correct_pixel e off px = spec_correct_pixel e off px"
    if "row \<in> set (generate b)" and "px \<in> set row" for row px
    using assms that by (intro correct_pixel_spec) (simp add: rgba_def)
  have row: "map (correct_pixel e off) row = map (spec_correct_pixel e off) row"
    if "row \<in> set (generate b)" for row
    by (rule map_cong [OF refl]) (rule px [OF that])
  have eq: "map (map (correct_pixel e off)) (generate b)
            = map (map (spec_correct_pixel e off)) (generate b)"
    by (rule map_cong [OF refl]) (rule row)
  show ?thesis
  proof (cases "e \<noteq> 1 \<or> off \<noteq> 0")
    case True
    then have "correction e off (generate b) = map (map (correct_pixel e off)) (generate b)"
      by (simp add: correction_def)
    then show ?thesis unfolding render_def spec_render_def eq by simp
  next
    case False
    then have "map (map (spec_correct_pixel e off)) (generate b) = generate b"
      by (simp add: spec_correct_pixel_default map_idI)
    with False show ?thesis by (simp add: render_def spec_render_def correction_def)
  qed
qed

text \<open>
  Claim C3. With exposure 1.5 and offset 0.1, a colour channel of value 0.4 becomes
  clip(0.4 * 1.5 + 0.1, 0, 1) = 0.7 and then the byte 178; the rows are reversed after
  the correction and the quantization, so the pixel of row \<open>i\<close> is found in row
  \<open>H - 1 - i\<close> of the result.
\<close>

theorem render_correction_example:
  assumes "i < length (generate b)" and "j < length (generate b ! i)"
    and "length (generate b ! i ! j) = 4" and "k < 3"
    and "generate b ! i ! j ! k = 0.4"
  shows "clip 0 1 (0.4 * 1.5 + 0.1) = 0.7
       \<and> to_uint8 (0.7 * 255) = 178
       \<and> render generate 1.5 0.1 b =
           flip0 (map (map (map quantize \<circ> correct_pixel 1.5 0.1)) (generate b))
       \<and> render generate 1.5 0.1 b ! (length (generate b) - 1 - i) ! j ! k = 178"
proof -
  have a: "clip 0 1 (0.4 * 1.5 + 0.1) = 0.7" by (simp add: clip_def)
  have b: "to_uint8 (0.7 * 255) = 178" by (simp add: to_uint8_def)
  have c: "render generate 1.5 0.1 b =
           flip0 (map (map (map quantize \<circ> correct_pixel 1.5 0.1)) (generate b))"
    by (simp add: render_def transform_def correction_def)
  have "render generate 1.5 0.1 b ! (length (generate b) - Suc i) ! j
        = map quantize (correct_pixel 1.5 0.1 (generate b ! i ! j))"
    using assms(1,2) by (simp add: render_pixel)
  then have "render generate 1.5 0.1 b ! (length (generate b) - Suc i) ! j ! k
        = quantize (correct_pixel 1.5 0.1 (generate b ! i ! j) ! k)"
    using assms(3,4) by (simp add: length_correct_pixel)
  also have "\<dots> = quantize (generate b ! i ! j ! k * 1.5 + 0.1)"
    using assms(3,4) by (simp only: correct_pixel_rgb)
  also have "\<dots> = quantize (0.4 * 1.5 + 0.1)"
    by (simp only: assms(5))
  also have "\<dots> = 178" by (simp add: quantize_def clip_def to_uint8_def)
  finally have d: "render generate 1.5 0.1 b ! (length (generate b) - 1 - i) ! j ! k = 178"
    by simp
  show ?thesis using a b c d by blast
qed

theorem render_correction_example_witness:
  "render (\<lambda>u::unit. [[[0.4, 0.4, 0.4, 1]], [[0, 0, 0, 0.5]]]) 1.5 0.1 () ! 1 ! 0 ! 2 = 178"
proof -
  let ?g = "\<lambda>u::unit. [[[0.4, 0.4, 0.4, 1]], [[0, 0, 0, 0.5::real]]]"
  have h1: "0 < length (?g ())" by simp
  have h2: "0 < length (?g () ! 0)" by simp
  have h3: "length (?g () ! 0 ! 0) = 4" by simp
  have h4: "(2::nat) < 3" by simp
  have h5: "?g () ! 0 ! 0 ! 2 = 0.4" by simp
  have "render ?g 1.5 0.1 () ! (length (?g ()) - 1 - 0) ! 0 ! 2 = 178"
    using render_correction_example [of 0 ?g "()" 0 2, OF h1 h2 h3 h4 h5] by blast
  then show ?thesis by simp
qed

text \<open>
  Claim C4. With exposure 1 and offset 0 the correction is skipped: the result is the
  clipped, quantized and flipped input, and on an RGBA image it is what the linear
  correction of the specification, applied with these parameters, would give.
\<close>

theorem render_default_identity:
  "render generate 1 0 b = flip0 (map (map (map quantize)) (generate b))
   \<and> (rgba (generate b) \<longrightarrow> render generate 1 0 b = spec_render generate 1 0 b)"
proof -
  have "map (map (spec_correct_pixel 1 0)) (generate b) = generate b"
    by (simp add: spec_correct_pixel_default map_idI)
  then show ?thesis
    by (simp add: render_def spec_render_def correction_def transform_def)
qed

theorem render_default_identity_witness:
  "rgba [[[0.25, 0.5, 2, 1]], [[0, - 1, 0, 0.5]]]
   \<and> render (\<lambda>u::unit. [[[0.25, 0.5, 2, 1]], [[0, - 1, 0, 0.5]]]) 1 0 ()
       = spec_render (\<lambda>u::unit. [[[0.25, 0.5, 2, 1]], [[0, - 1, 0, 0.5]]]) 1 0 ()"
proof -
  let ?g = "\<lambda>u::unit. [[[0.25, 0.5, 2, 1]], [[0, - 1, 0, 0.5::real]]]"
  have h: "rgba (?g ())" by (simp add: rgba_def)
  show ?thesis using h render_default_identity [of ?g "()"] by blast
qed

text \<open>
  Claim C5. Whatever the exposure and the offset are, the alpha channel of an RGBA pixel
  whose alpha lies in [0, 1] is only quantized: the result holds the byte of the input
  alpha, at the flipped row.
\<close>

theorem render_alpha_passthrough:
  assumes "i < length (generate b)" and "j < length (generate b ! i)"
    and "length (generate b ! i ! j) = 4"
    and "0 \<le> generate b ! i ! j ! 3" and "generate b ! i ! j ! 3 \<le> 1"
  shows "render generate e off b ! (length (generate b) - 1 - i) ! j ! 3
         = to_uint8 (generate b ! i ! j ! 3 * 255)"
proof -
  let ?px = "generate b ! i ! j"
  have "render generate e off b ! (length (generate b) - Suc i) ! j ! 3
        = quantize (?px ! 3)"
    using assms(1,2,3) by (simp add: render_pixel length_correct_pixel correct_pixel_alpha)
  then show ?thesis using assms(4,5) by (simp add: quantize_unit)
qed

theorem render_alpha_passthrough_witness:
  "render (\<lambda>u::unit. [[[0.4, 0.4, 0.4, 1]], [[0, 0, 0, 0.5]]]) 3 (- 2) () ! 0 ! 0 ! 3 = 127"
proof -
  let ?g = "\<lambda>u::unit. [[[0.4, 0.4, 0.4, 1]], [[0, 0, 0, 0.5::real]]]"
  have h1: "1 < length (?g ())" by simp
  have h2: "0 < length (?g () ! 1)" by simp
  have h3: "length (?g () ! 1 ! 0) = 4" by simp
  have h4: "0 \<le> ?g () ! 1 ! 0 ! 3" by simp
  have h5: "?g () ! 1 ! 0 ! 3 \<le> 1" by simp
  have "render ?g 3 (- 2) () ! (length (?g ()) - 1 - 1) ! 0 ! 3 = to_uint8 (?g () ! 1 ! 0 ! 3 * 255)"
    using render_alpha_passthrough [of 1 ?g "()" 0 3 "- 2", OF h1 h2 h3 h4 h5] .
  then show ?thesis by (simp add: to_uint8_def)
qed

section \<open>Throughput reports of the two loops\<close>

text \<open>
  Claim C6. In \<open>render_loop\<close> and in \<open>send_loop\<close> an iteration logs a report exactly
  when more than 2.0 seconds have passed since \<open>prev_time\<close> (the start of the loop or
  the last report). The value is the number of iterations counted in the window, this
  one included, over the seconds passed; the counter goes back to 0 and the window starts
  at the current time. Otherwise the counter grows by one and nothing is logged.
\<close>

theorem fps_report_cadence:
  "(snd (render_loop_fps st t) \<noteq> None) = (t - prev_time st > 2)
   \<and> (snd (send_loop_fps st t) \<noteq> None) = (t - prev_time st > 2)
   \<and> (t - prev_time st > 2 \<longrightarrow>
        render_loop_fps st t =
          (\<lparr>frame_cnt = 0, prev_time = t\<rparr>,
           Some (Render_FPS (real (frame_cnt st + 1) / (t - prev_time st))))
      \<and> send_loop_fps st t =
          (\<lparr>frame_cnt = 0, prev_time = t\<rparr>,
           Some (Send_FPS (real (frame_cnt st + 1) / (t - prev_time st)))))
   \<and> (\<not> t - prev_time st > 2 \<longrightarrow>
        render_loop_fps st t = (\<lparr>frame_cnt = frame_cnt st + 1, prev_time = prev_time st\<rparr>, None)
      \<and> send_loop_fps st t = (\<lparr>frame_cnt = frame_cnt st + 1, prev_time = prev_time st\<rparr>, None))"
  by (simp add: render_loop_fps_def send_loop_fps_def Let_def)

theorem fps_report_cadence_witness:
  "render_loop_fps \<lparr>frame_cnt = 59, prev_time = 10\<rparr> 12.5
     = (\<lparr>frame_cnt = 0, prev_time = 12.5\<rparr>, Some (Render_FPS 24))
   \<and> send_loop_fps \<lparr>frame_cnt = 59, prev_time = 10\<rparr> 12
     = (\<lparr>frame_cnt = 60, prev_time = 10\<rparr>, None)"
  using fps_report_cadence [of "\<lparr>frame_cnt = 59, prev_time = 10\<rparr>" "12.5"]
    fps_report_cadence [of "\<lparr>frame_cnt = 59, prev_time = 10\<rparr>" "12"]
  by simp

section \<open>Executions and what a step leaves alone\<close>

text \<open>
  A property that holds at the start and is kept by every step holds after every
  schedule.
\<close>

lemma run_invariant:
  assumes "P s0"
    and "\<And>a s s'. P s \<Longrightarrow> step generate a s = Some s' \<Longrightarrow> P s'"
    and "run generate sched s0 = Some s"
  shows "P s"
  using assms(1,3)
proof (induction sched arbitrary: s0)
  case Nil
  then show ?case by simp
next
  case (Cons a sched)
  from Cons.prems(2) obtain s1 where s1: "step generate a s0 = Some s1"
    and r: "run generate sched s1 = Some s"
    by (auto split: option.splits)
  from assms(2) [OF Cons.prems(1) s1] have "P s1" .
  then show ?case using r by (rule Cons.IH)
qed

lemma send_loop_step_frame:
  assumes "send_loop_step c s = Some s'"
  shows "camera s' = camera s \<and> image_ref s' = image_ref s \<and> published s' = published s
       \<and> issued s' = issued s \<and> finished s' = finished s \<and> stream s' = stream s
       \<and> render_at s' = render_at s \<and> batch s' = batch s \<and> rendered s' = rendered s
       \<and> camera_lock s' = camera_lock s"
  using assms
  by (cases "send_at s c")
     (auto simp: send_loop_step_def split: option.splits prod.splits if_splits)

lemma gpu_compute_Some:
  "gpu_compute s = Some s' \<Longrightarrow> finished s < issued s \<and> s' = s\<lparr>finished := finished s + 1\<rparr>"
  by (auto simp: gpu_compute_def split: if_splits)

lemma gpu_transfer_cases:
  assumes "gpu_transfer s = Some s'"
  obtains (wait) k q where "stream s = XWait k # q" "k \<le> finished s" "s' = s\<lparr>stream := q\<rparr>"
        | (copy) n q where "stream s = XCopy n # q" "s' = s\<lparr>stream := q\<rparr>"
proof (cases "stream s")
  case Nil
  with assms show ?thesis by (simp add: gpu_transfer_def)
next
  case (Cons x q)
  show ?thesis
  proof (cases x)
    case (XWait k)
    with Cons assms wait show ?thesis by (simp add: gpu_transfer_def split: if_splits)
  next
    case (XCopy n)
    with Cons assms copy show ?thesis by (simp add: gpu_transfer_def)
  qed
qed

lemma tick_Some: "tick d s = Some s' \<Longrightarrow> s' = s\<lparr>clock := clock s + d\<rparr>"
  by (auto simp: tick_def split: if_splits)

section \<open>The receive loop\<close>

text \<open>
  Claim C8. An iteration of \<open>recv_loop\<close> leaves the whole state of the server as it
  is, the camera included, and so does any number of iterations on any connections.
\<close>

theorem recv_loop_changes_nothing:
  "recv_loop_step c s = Some s \<and> run generate (map Recv_conn cs) s = Some s"
  by (induction cs) (simp_all add: recv_loop_step_def)

section \<open>Generations read by a connection\<close>

lemma generations_step:
  assumes "generations s" and "step generate a s = Some s'"
  shows "generations s'"
proof (cases a)
  case (Thread t)
  show ?thesis
  proof (cases t)
    case Render_thread
    with Thread assms show ?thesis
      by (cases "render_at s")
         (auto simp: generations_def render_loop_step_def le_SucI split: option.splits prod.splits)
  next
    case (Send_conn c)
    with Thread assms show ?thesis
      by (cases "send_at s c")
         (auto simp: generations_def send_loop_step_def sorted_append split: option.splits prod.splits if_splits)
  qed
next
  case (Recv_conn c)
  with assms show ?thesis by (simp add: recv_loop_step_def)
next
  case Gpu_compute
  with assms show ?thesis by (auto simp: generations_def gpu_compute_def split: if_splits)
next
  case Gpu_transfer
  with assms show ?thesis
    by (auto simp: generations_def gpu_transfer_def split: if_splits list.splits xop.splits)
next
  case (Clock d)
  with assms show ?thesis by (auto simp: generations_def tick_def split: if_splits)
qed

text \<open>
  Claim C7. In every execution from the initial state, whatever the interleaving of the
  render loop, the connections and the device, the generations that a connection has
  read from the slot are in non-decreasing order (and none is ahead of the slot).
\<close>

theorem observed_generations_monotone:
  assumes "run generate sched (init h w quality rng) = Some s"
  shows "sorted (observed s c) \<and> (\<forall>g \<in> set (observed s c). g \<le> published s)"
proof -
  have "generations (init h w quality rng)" by (simp add: generations_def init_def)
  then have "generations s"
    using generations_step assms by (rule run_invariant)
  then show ?thesis by (simp add: generations_def)
qed

lemma skip_run: "run flat skip_schedule (init 2 1 75 rng0) \<noteq> None \<and> observed (the (run flat skip_schedule (init 2 1 75 rng0))) 0 = [0, 2]"
  by (simp add: skip_schedule_def machine_defs Let_def)

theorem observed_generations_monotone_witness:
  "run flat skip_schedule (init 2 1 75 rng0) \<noteq> None
   \<and> observed (the (run flat skip_schedule (init 2 1 75 rng0))) 0 = [0, 2]
   \<and> sorted (observed (the (run flat skip_schedule (init 2 1 75 rng0))) 0)"
proof -
  let ?s = "the (run flat skip_schedule (init 2 1 75 rng0))"
  have r: "run flat skip_schedule (init 2 1 75 rng0) \<noteq> None"
    using skip_run by (rule conjunct1)
  have s: "run flat skip_schedule (init 2 1 75 rng0) = Some ?s"
    using option.collapse [OF r] by (rule sym)
  have o: "observed ?s 0 = [0, 2]"
    using skip_run by (rule conjunct2)
  have "sorted (observed ?s 0)"
    using observed_generations_monotone [OF s, of 0] by (rule conjunct1)
  with r o show ?thesis by blast
qed

section \<open>The copy is ordered after the rendering\<close>

lemma ordered_mono: "ordered m q \<Longrightarrow> m \<le> m' \<Longrightarrow> ordered m' q"
proof (induction m q arbitrary: m' rule: ordered.induct)
  case (2 m k q)
  have "max m k \<le> max m' k" using 2(3) by (simp add: max.coboundedI1)
  then show ?case using 2(1) 2(2) by simp
qed auto

lemma barrier_mono: "m \<le> m' \<Longrightarrow> barrier m q \<le> barrier m' q"
proof (induction m q arbitrary: m' rule: barrier.induct)
  case (2 m k q)
  have "max m k \<le> max m' k" using 2(2) by (simp add: max.coboundedI1)
  then show ?case using 2(1) by simp
qed auto

lemma ordered_snoc_wait: "ordered m (q @ [XWait k]) = ordered m q"
  by (induction m q rule: ordered.induct) auto

lemma ordered_snoc_copy: "ordered m (q @ [XCopy n]) = (ordered m q \<and> n \<le> barrier m q)"
  by (induction m q rule: ordered.induct) auto

lemma barrier_snoc_wait: "barrier m (q @ [XWait k]) = max (barrier m q) k"
  by (induction m q rule: barrier.induct) auto

lemma barrier_snoc_copy: "barrier m (q @ [XCopy n]) = barrier m q"
  by (induction m q rule: barrier.induct) auto

lemma streams_ordered_step:
  assumes "streams_ordered s" and "step generate a s = Some s'"
  shows "streams_ordered s'"
proof (cases a)
  case (Thread t)
  show ?thesis
  proof (cases t)
    case Render_thread
    with Thread assms show ?thesis
      by (cases "render_at s")
         (auto simp: streams_ordered_def render_loop_step_def ordered_snoc_wait ordered_snoc_copy
            barrier_snoc_wait barrier_snoc_copy split: option.splits prod.splits)
  next
    case (Send_conn c)
    with Thread assms show ?thesis
      by (cases "send_at s c")
         (auto simp: streams_ordered_def send_loop_step_def split: option.splits prod.splits if_splits)
  qed
next
  case (Recv_conn c)
  with assms show ?thesis by (simp add: recv_loop_step_def)
next
  case Gpu_compute
  with assms have s': "s' = s\<lparr>finished := finished s + 1\<rparr>" and lt: "finished s < issued s"
    by (auto simp: gpu_compute_def split: if_splits)
  have "ordered (finished s + 1) (stream s)"
    using assms(1) by (auto simp: streams_ordered_def intro: ordered_mono)
  moreover have "barrier (finished s) (stream s) \<le> barrier (finished s + 1) (stream s)"
    by (rule barrier_mono) simp
  ultimately show ?thesis
    using assms(1) lt unfolding s' streams_ordered_def by auto
next
  case Gpu_transfer
  with assms show ?thesis
    by (auto simp: streams_ordered_def gpu_transfer_def max_absorb1 split: if_splits list.splits xop.splits)
next
  case (Clock d)
  with assms show ?thesis by (auto simp: streams_ordered_def tick_def split: if_splits)
qed

text \<open>
  Claim C9. In every execution, when the copy of frame \<open>n\<close> is at the head of the
  transfer stream, where it can start, the compute stream has finished frame \<open>n\<close>
  (and so has been issued it): \<open>wait_stream\<close> on line 115 comes after the rendering
  of line 114 and before the copy of line 118.
\<close>

theorem copy_after_compute:
  assumes "run generate sched (init h w quality rng) = Some s"
    and "stream s = XCopy n # q"
  shows "n \<le> finished s \<and> n \<le> issued s"
proof -
  have "streams_ordered (init h w quality rng)" by (simp add: streams_ordered_def init_def)
  then have "streams_ordered s"
    using streams_ordered_step assms(1) by (rule run_invariant)
  then show ?thesis using assms(2) by (simp add: streams_ordered_def)
qed

theorem copy_after_compute_witness:
  "run flat copy_schedule (init 2 1 75 rng0) \<noteq> None
   \<and> stream (the (run flat copy_schedule (init 2 1 75 rng0))) = [XCopy 1]
   \<and> 1 \<le> finished (the (run flat copy_schedule (init 2 1 75 rng0)))"
proof -
  let ?s = "the (run flat copy_schedule (init 2 1 75 rng0))"
  have r: "run flat copy_schedule (init 2 1 75 rng0) \<noteq> None"
    by (simp add: copy_schedule_def machine_defs Let_def)
  have s: "run flat copy_schedule (init 2 1 75 rng0) = Some ?s"
    using option.collapse [OF r] by (rule sym)
  have q: "stream ?s = XCopy 1 # []"
    by (simp add: copy_schedule_def machine_defs Let_def)
  have "1 \<le> finished ?s"
    using copy_after_compute [OF s q] by (rule conjunct1)
  with r q show ?thesis by blast
qed

section \<open>The shape of the frame in the slot\<close>

lemma to_uint8_le: "to_uint8 x \<le> 255"
proof -
  have "(if 0 \<le> x then \<lfloor>x\<rfloor> else \<lceil>x\<rceil>) mod 256 < 256" by simp
  then show ?thesis unfolding to_uint8_def by linarith
qed

lemma quantize_exact: "quantize c = nat \<lfloor>clip 0 1 c * 255\<rfloor>"
proof -
  have a: "0 \<le> clip 0 1 c * 255" by (simp add: clip_def)
  have b: "clip 0 1 c * 255 \<le> 255" by (simp add: clip_def)
  have "\<lfloor>clip 0 1 c * 255\<rfloor> \<le> 255" using b by (simp add: floor_le_iff)
  moreover have "0 \<le> \<lfloor>clip 0 1 c * 255\<rfloor>" using a by simp
  ultimately have "\<lfloor>clip 0 1 c * 255\<rfloor> mod 256 = \<lfloor>clip 0 1 c * 255\<rfloor>" by simp
  then show ?thesis using a by (simp add: quantize_def to_uint8_def)
qed

lemma quantize_le: "quantize c \<le> 255"
  by (simp add: quantize_def to_uint8_le)

lemma randint_shape: "uint8_hw4 h w (randint 0 255 h w rng)"
proof -
  have "rng i j k mod 255 \<le> 255" for i j k
    using mod_less_divisor [of 255 "rng i j k"] by linarith
  then show ?thesis by (auto simp: uint8_hw4_def randint_def)
qed

lemma correction_shape: "rgba_hw h w img \<Longrightarrow> rgba_hw h w (correction e off img)"
  by (auto simp: rgba_hw_def correction_def correct_pixel_def)

lemma transform_shape: "rgba_hw h w img \<Longrightarrow> uint8_hw4 h w (transform img)"
  by (auto simp: rgba_hw_def uint8_hw4_def transform_def flip0_def quantize_le)

lemma render_shape: "rgba_hw h w (generate b) \<Longrightarrow> uint8_hw4 h w (render generate e off b)"
  by (simp add: render_def correction_shape transform_shape)

lemma slot_shape_render_step:
  assumes gen: "\<And>cam. rgba_hw (cam_H cam) (cam_W cam) (generate cam)"
    and inv: "slot_shape h w s" and st: "render_loop_step generate s = Some s'"
  shows "slot_shape h w s'"
proof (cases "render_at s")
  case RRender
  with inv have "batch s = \<lparr>cam_H = h, cam_W = w\<rparr>"
    by (simp add: slot_shape_def)
  with gen [of "batch s"] have "uint8_hw4 h w (render generate (exposure s) (offset s) (batch s))"
    by (simp add: render_shape)
  with RRender st inv show ?thesis
    by (auto simp: slot_shape_def render_loop_step_def)
next
  case RFps
  with st inv show ?thesis
    by (auto simp: slot_shape_def render_loop_step_def split: prod.splits)
qed (use st inv in \<open>auto simp: slot_shape_def render_loop_step_def split: option.splits\<close>)

lemma slot_shape_step:
  assumes gen: "\<And>cam. rgba_hw (cam_H cam) (cam_W cam) (generate cam)"
    and inv: "slot_shape h w s" and st: "step generate a s = Some s'"
  shows "slot_shape h w s'"
proof (cases a)
  case (Thread t)
  show ?thesis
  proof (cases t)
    case Render_thread
    with Thread st have "render_loop_step generate s = Some s'" by simp
    with gen inv show ?thesis by (rule slot_shape_render_step)
  next
    case (Send_conn c)
    with Thread st have "send_loop_step c s = Some s'" by simp
    from send_loop_step_frame [OF this] inv show ?thesis
      by (simp add: slot_shape_def)
  qed
next
  case (Recv_conn c)
  with inv st show ?thesis by (simp add: recv_loop_step_def)
next
  case Gpu_compute
  with st have "gpu_compute s = Some s'" by simp
  from gpu_compute_Some [OF this] inv show ?thesis by (simp add: slot_shape_def)
next
  case Gpu_transfer
  with st have "gpu_transfer s = Some s'" by simp
  then show ?thesis using inv by (cases rule: gpu_transfer_cases) (simp_all add: slot_shape_def)
next
  case (Clock d)
  with st have "tick d s = Some s'" by simp
  from tick_Some [OF this] inv show ?thesis by (simp add: slot_shape_def)
qed

text \<open>
  Claim C10. If the network returns an RGBA image of the camera's height and width,
  then in every execution from the initial state the slot holds a frame of shape
  H x W x 4 whose channels are all at most 255: the random placeholder is one, and
  \<open>render\<close> clips and quantizes before line 118 stores the frame.
\<close>

theorem frame_slot_shape:
  assumes "\<And>cam. rgba_hw (cam_H cam) (cam_W cam) (generate cam)"
    and "run generate sched (init h w quality rng) = Some s"
  shows "uint8_hw4 h w (image_ref s)"
proof -
  have "slot_shape h w (init h w quality rng)"
    by (simp add: slot_shape_def init_def randint_shape)
  then have "slot_shape h w s"
    using slot_shape_step [OF assms(1)] assms(2) by (rule run_invariant)
  then show ?thesis by (simp add: slot_shape_def)
qed

lemma flat_shape: "rgba_hw (cam_H cam) (cam_W cam) (flat cam)"
  by (simp add: rgba_hw_def flat_def)

theorem frame_slot_shape_witness:
  "run flat copy_schedule (init 2 1 75 rng0) \<noteq> None
   \<and> image_ref (the (run flat copy_schedule (init 2 1 75 rng0)))
       = [[[102, 102, 102, 255]], [[102, 102, 102, 255]]]
   \<and> uint8_hw4 2 1 (image_ref (the (run flat copy_schedule (init 2 1 75 rng0))))"
proof -
  let ?s = "the (run flat copy_schedule (init 2 1 75 rng0))"
  have r: "run flat copy_schedule (init 2 1 75 rng0) \<noteq> None"
    by (simp add: copy_schedule_def machine_defs Let_def)
  have s: "run flat copy_schedule (init 2 1 75 rng0) = Some ?s"
    using option.collapse [OF r] by (rule sym)
  have i: "image_ref ?s = [[[102, 102, 102, 255]], [[102, 102, 102, 255]]]"
    by (simp add: copy_schedule_def machine_defs Let_def numeral_2_eq_2)
  have "uint8_hw4 2 1 (image_ref ?s)"
    using flat_shape s by (rule frame_slot_shape)
  with r i show ?thesis by blast
qed

section \<open>Where the locks are held\<close>

lemma lock_scopes_render_step:
  assumes "lock_scopes s" and "render_loop_step generate s = Some s'"
  shows "lock_scopes s'"
  using assms
  by (cases "render_at s")
     (auto simp: lock_scopes_def render_loop_step_def split: option.splits prod.splits)

lemma lock_scopes_send_update:
  assumes inv: "lock_scopes s"
    and l: "image_lock s' = l'" and p: "send_at s' = (send_at s)(c := p')"
    and r: "render_at s' = render_at s" and cl: "camera_lock s' = camera_lock s"
    and own: "(l' = Some (Send_conn c)) = send_holds_image_lock p'"
    and others: "\<And>t. t \<noteq> Send_conn c \<Longrightarrow> (l' = Some t) = (image_lock s = Some t)"
  shows "lock_scopes s'"
proof -
  have "(image_lock s' = Some (Send_conn c')) = send_holds_image_lock (send_at s' c')" for c'
  proof (cases "c' = c")
    case True
    then show ?thesis using own by (simp add: l p)
  next
    case False
    then have "(l' = Some (Send_conn c')) = (image_lock s = Some (Send_conn c'))"
      by (intro others) simp
    moreover have "(image_lock s = Some (Send_conn c')) = send_holds_image_lock (send_at s c')"
      using inv by (simp add: lock_scopes_def)
    ultimately show ?thesis using False by (simp add: l p)
  qed
  moreover have "(image_lock s' = Some Render_thread) = render_holds_image_lock (render_at s')"
  proof -
    have "(l' = Some Render_thread) = (image_lock s = Some Render_thread)"
      by (intro others) simp
    then show ?thesis using inv by (simp add: lock_scopes_def l r)
  qed
  moreover have "(camera_lock s' = Some Render_thread) = render_holds_camera_lock (render_at s')"
    using inv by (simp add: lock_scopes_def cl r)
  moreover have "camera_lock s' \<noteq> Some (Send_conn c')" for c'
    using inv by (simp add: lock_scopes_def cl)
  ultimately show ?thesis unfolding lock_scopes_def by blast
qed

lemma lock_scopes_send_step:
  assumes inv: "lock_scopes s" and st: "send_loop_step c s = Some s'"
  shows "lock_scopes s'"
proof -
  have own: "(image_lock s = Some (Send_conn c)) = send_holds_image_lock (send_at s c)"
    using inv by (simp add: lock_scopes_def)
  show ?thesis
  proof (cases "send_at s c")
    case SInit
    with st have "s' = s\<lparr>send_fps := (send_fps s)(c := \<lparr>frame_cnt = 0, prev_time = clock s\<rparr>),
                 send_at := (send_at s)(c := SImgLock)\<rparr>"
      by (simp add: send_loop_step_def)
    then show ?thesis
      using own SInit by (intro lock_scopes_send_update [OF inv, where l' = "image_lock s" and p' = SImgLock and c = c]) simp_all
  next
    case SImgLock
    with st have free: "image_lock s = None"
      and s': "s' = s\<lparr>image_lock := Some (Send_conn c), send_at := (send_at s)(c := SSynchronize)\<rparr>"
      by (auto simp: send_loop_step_def split: option.splits)
    show ?thesis
      using free by (intro lock_scopes_send_update [OF inv, where l' = "Some (Send_conn c)" and p' = SSynchronize and c = c])
        (auto simp: s')
  next
    case SSynchronize
    with st have "s' = s\<lparr>send_at := (send_at s)(c := SNumpy)\<rparr>"
      by (simp add: send_loop_step_def split: if_splits)
    then show ?thesis
      using own SSynchronize by (intro lock_scopes_send_update [OF inv, where l' = "image_lock s" and p' = SNumpy and c = c]) simp_all
  next
    case SNumpy
    with st have "s' = s\<lparr>local_image := (local_image s)(c := image_ref s),
                 observed := (observed s)(c := observed s c @ [published s]),
                 send_at := (send_at s)(c := SImgUnlock)\<rparr>"
      by (simp add: send_loop_step_def)
    then show ?thesis
      using own SNumpy by (intro lock_scopes_send_update [OF inv, where l' = "image_lock s" and p' = SImgUnlock and c = c]) simp_all
  next
    case SImgUnlock
    with st have s': "s' = s\<lparr>image_lock := None, send_at := (send_at s)(c := SEncode)\<rparr>"
      by (simp add: send_loop_step_def)
    from own SImgUnlock have "image_lock s = Some (Send_conn c)" by simp
    then show ?thesis
      by (intro lock_scopes_send_update [OF inv, where l' = None and p' = SEncode and c = c])
        (auto simp: s')
  next
    case SEncode
    with st have "s' = s\<lparr>encoded := (encoded s)(c := Some (local_image s c, jpeg_quality s)),
                 send_at := (send_at s)(c := SSend)\<rparr>"
      by (simp add: send_loop_step_def)
    then show ?thesis
      using own SEncode by (intro lock_scopes_send_update [OF inv, where l' = "image_lock s" and p' = SSend and c = c]) simp_all
  next
    case SSend
    with st have "s' = s\<lparr>send_at := (send_at s)(c := SFps)\<rparr>"
      by (simp add: send_loop_step_def)
    then show ?thesis
      using own SSend by (intro lock_scopes_send_update [OF inv, where l' = "image_lock s" and p' = SFps and c = c]) simp_all
  next
    case SFps
    with st obtain st' rep where "s' = s\<lparr>send_fps := (send_fps s)(c := st'),
                      logged := logged s @ (case rep of None \<Rightarrow> [] | Some r \<Rightarrow> [r]),
                      send_at := (send_at s)(c := SImgLock)\<rparr>"
      by (auto simp: send_loop_step_def split: prod.splits)
    then show ?thesis
      using own SFps by (intro lock_scopes_send_update [OF inv, where l' = "image_lock s" and p' = SImgLock and c = c]) simp_all
  qed
qed

lemma lock_scopes_step:
  assumes inv: "lock_scopes s" and st: "step generate a s = Some s'"
  shows "lock_scopes s'"
proof (cases a)
  case (Thread t)
  with inv st show ?thesis
    by (cases t) (auto intro: lock_scopes_render_step lock_scopes_send_step)
next
  case (Recv_conn c)
  with inv st show ?thesis by (simp add: recv_loop_step_def)
next
  case Gpu_compute
  with st have "gpu_compute s = Some s'" by simp
  from gpu_compute_Some [OF this] inv show ?thesis by (simp add: lock_scopes_def)
next
  case Gpu_transfer
  with st have "gpu_transfer s = Some s'" by simp
  then show ?thesis using inv by (cases rule: gpu_transfer_cases) (simp_all add: lock_scopes_def)
next
  case (Clock d)
  with st have "tick d s = Some s'" by simp
  from tick_Some [OF this] inv show ?thesis by (simp add: lock_scopes_def)
qed

lemma send_holds_image_lock_iff:
  "send_holds_image_lock p = (p \<in> {SSynchronize, SNumpy, SImgUnlock})"
  by (cases p) simp_all

lemma render_holds_image_lock_iff:
  "render_holds_image_lock p = (p \<in> {RPublish, RImgUnlock})"
  by (cases p) simp_all

lemma render_holds_camera_lock_iff:
  "render_holds_camera_lock p = (p \<in> {RToBatch, RCamUnlock})"
  by (cases p) simp_all

text \<open>
  Claim C1, as the code has it. In every execution, connection \<open>c\<close> holds
  \<open>image_lock\<close> exactly at lines 135 and 136 and at the exit of the \<open>with\<close> block:
  across \<open>stream.synchronize()\<close> and the read of \<open>self.image\<close>, and not at the
  encoding, the send or the report. The render loop holds \<open>image_lock\<close> exactly at
  line 118 and the exit of its block, and \<open>camera_lock\<close> exactly at line 113 and the
  exit of its block: not across the rendering, \<open>wait_stream\<close> or the report.
\<close>

theorem image_lock_scope:
  assumes "run generate sched (init h w quality rng) = Some s"
  shows "(image_lock s = Some (Send_conn c)) = (send_at s c \<in> {SSynchronize, SNumpy, SImgUnlock})
       \<and> (image_lock s = Some Render_thread) = (render_at s \<in> {RPublish, RImgUnlock})
       \<and> (camera_lock s = Some Render_thread) = (render_at s \<in> {RToBatch, RCamUnlock})
       \<and> camera_lock s \<noteq> Some (Send_conn c)"
proof -
  have "lock_scopes (init h w quality rng)" by (simp add: lock_scopes_def init_def)
  then have "lock_scopes s"
    using lock_scopes_step assms by (rule run_invariant)
  then show ?thesis
    unfolding lock_scopes_def send_holds_image_lock_iff render_holds_image_lock_iff
      render_holds_camera_lock_iff by blast
qed

theorem image_lock_scope_witness:
  "run flat blocked_schedule (init 2 1 75 rng0) \<noteq> None
   \<and> image_lock (the (run flat blocked_schedule (init 2 1 75 rng0))) = Some (Send_conn 0)
   \<and> send_at (the (run flat blocked_schedule (init 2 1 75 rng0))) 0 \<in> {SSynchronize, SNumpy, SImgUnlock}"
proof -
  let ?s = "the (run flat blocked_schedule (init 2 1 75 rng0))"
  have r: "run flat blocked_schedule (init 2 1 75 rng0) \<noteq> None"
    by (simp add: blocked_schedule_def machine_defs Let_def)
  have s: "run flat blocked_schedule (init 2 1 75 rng0) = Some ?s"
    using option.collapse [OF r] by (rule sym)
  have l: "image_lock ?s = Some (Send_conn 0)"
    by (simp add: blocked_schedule_def machine_defs Let_def)
  have "(image_lock ?s = Some (Send_conn 0)) = (send_at ?s 0 \<in> {SSynchronize, SNumpy, SImgUnlock})"
    using image_lock_scope [OF s, of 0] by (rule conjunct1)
  with l have "send_at ?s 0 \<in> {SSynchronize, SNumpy, SImgUnlock}" by blast
  with r l show ?thesis by blast
qed

text \<open>
  Claim C1, as stated, fails. After \<open>blocked_schedule\<close> connection 0 is at
  \<open>stream.synchronize()\<close> inside its \<open>with self.image_lock\<close> block, the copy of
  frame 1 is still queued, so the connection waits with the lock in hand, and the render
  loop, at line 117, cannot take the lock.
\<close>

theorem send_loop_waits_holding_lock:
  "run flat blocked_schedule (init 2 1 75 rng0) \<noteq> None
   \<and> send_at (the (run flat blocked_schedule (init 2 1 75 rng0))) 0 = SSynchronize
   \<and> image_lock (the (run flat blocked_schedule (init 2 1 75 rng0))) = Some (Send_conn 0)
   \<and> stream (the (run flat blocked_schedule (init 2 1 75 rng0))) = [XWait 1, XCopy 1, XWait 2]
   \<and> send_loop_step 0 (the (run flat blocked_schedule (init 2 1 75 rng0))) = None
   \<and> render_at (the (run flat blocked_schedule (init 2 1 75 rng0))) = RImgLock
   \<and> render_loop_step flat (the (run flat blocked_schedule (init 2 1 75 rng0))) = None"
  by (simp add: blocked_schedule_def machine_defs Let_def)

section \<open>Publishing does not wait for the copy\<close>


text \<open>
  After \<open>publish_schedule\<close> the render loop has stored frame 1 and has issued the
  rendering of frame 2, while the barrier and the copy of frame 1 are still queued and
  the device has finished nothing.
\<close>

lemma render_loop_runs_ahead:
  "run flat publish_schedule (init 2 1 75 rng0) \<noteq> None
   \<and> render_at (the (run flat publish_schedule (init 2 1 75 rng0))) = RWaitStream
   \<and> published (the (run flat publish_schedule (init 2 1 75 rng0))) = 1
   \<and> issued (the (run flat publish_schedule (init 2 1 75 rng0))) = 2
   \<and> finished (the (run flat publish_schedule (init 2 1 75 rng0))) = 0
   \<and> stream (the (run flat publish_schedule (init 2 1 75 rng0))) = [XWait 1, XCopy 1]"
  by (simp add: publish_schedule_def machine_defs Let_def)

end
